theory Spec2Isabelle
  imports Main
begin

section \<open>The timer registry of \<open>src/index.ts\<close>\<close>

text \<open>
  The module keeps one table \<open>timers\<close> from identifiers to \<open>Timer\<close> objects and drives
  each running object from a \<open>setInterval\<close> callback. The embedding makes explicit what
  the TypeScript leaves implicit:
  \<^item> \<open>Timer\<close> objects live in a store \<open>heap\<close> and the table holds references, because the
    closures built by \<open>start\<close> and \<open>subscribe\<close> capture the object, not the identifier;
  \<^item> the host's interval scheduler is the map \<open>intervals\<close> from a live interval handle to
    what its callback captured (the object and the identifier);
  \<^item> \<open>Date.now()\<close> is an argument of every operation that reads the clock;
  \<^item> a listener is a callback: called with a value it runs a script of calls into the
    module, each of which may itself call listeners, and it may throw;
  \<^item> the write of \<open>startTs\<close>, every call of a listener, every arming and cancelling of an
    interval and every deletion from the table is recorded in \<open>trace\<close>, so that the order
    of effects inside one operation and the history of an entry can be stated;
  \<^item> \<open>throw new Error(...)\<close> of an operation is the result \<open>Inl NotFound\<close>, an exception
    that leaves a listener is \<open>Inl Escaped\<close>, both returned with the state the code
    leaves behind.
  Numbers are milliseconds and are modelled as \<open>int\<close>.
\<close>

subsection \<open>Data\<close>

type_synonym Listener = nat
type_synonym ref = nat
type_synonym handle = nat

datatype TimerType = TIMER | STOPWATCH

text \<open>
  \<open>listeners\<close> is the entry list of the JavaScript \<open>Set\<close>: \<open>add\<close> appends a value that
  is not there, \<open>delete\<close> empties the slot of the value (\<open>None\<close>) and \<open>forEach\<close> walks
  the slots by index, so that it sees what a callback adds or deletes while it runs.
\<close>

record Timer =
  startTs :: int
  elapsedTime :: int
  intervalId :: "handle option"
  listeners :: "Listener option list"
  type :: TimerType
  initialDuration :: "int option"

datatype event =
    Started ref int
  | Notify Listener int
  | Scheduled handle
  | Cancelled handle
  | Removed string

datatype error = NotFound | Escaped

record state =
  heap :: "ref \<Rightarrow> Timer"
  timers :: "string \<rightharpoonup> ref"
  intervals :: "handle \<rightharpoonup> ref \<times> string"
  next_ref :: ref
  next_handle :: handle
  trace :: "event list"

text \<open>The members of a listener set, in iteration order.\<close>

fun live :: "Listener option list \<Rightarrow> Listener list" where
  "live [] = []"
| "live (None # es) = live es"
| "live (Some fn # es) = fn # live es"

definition set_add :: "Listener \<Rightarrow> Listener option list \<Rightarrow> Listener option list" where
  "set_add fn es = (if Some fn \<in> set es then es else es @ [Some fn])"

definition set_delete :: "Listener \<Rightarrow> Listener option list \<Rightarrow> Listener option list" where
  "set_delete fn es = map (\<lambda>e. if e = Some fn then None else e) es"

definition blank :: Timer where
  "blank = \<lparr>startTs = 0, elapsedTime = 0, intervalId = None, listeners = [],
            type = STOPWATCH, initialDuration = None\<rparr>"

text \<open>The module as loaded: \<open>const timers = new Map()\<close>, nothing scheduled, nothing called.\<close>

definition init :: state where
  "init = \<lparr>heap = (\<lambda>_. blank), timers = Map.empty, intervals = Map.empty,
           next_ref = 0, next_handle = 0, trace = []\<rparr>"

text \<open>The notifications among a sequence of events, as (listener, value) pairs.\<close>

fun notifications :: "event list \<Rightarrow> (Listener \<times> int) list" where
  "notifications [] = []"
| "notifications (Notify fn v # es) = (fn, v) # notifications es"
| "notifications (_ # es) = notifications es"

subsection \<open>Callbacks\<close>

text \<open>
  What a client or a listener can call: the exported functions and the closures returned
  by \<open>subscribe\<close>. The body of a listener is a list of statements: a call with its clock
  reading whose exception is not caught (\<open>Do\<close>) or is caught and dropped (\<open>Try\<close>), or a
  \<open>throw\<close>. Which body a listener runs may depend on the value it is called with and on
  the state it is called in (which holds the whole history in \<open>trace\<close>).
\<close>

datatype call =
    CreateStopWatch string "int option"
  | CreateTimer string int
  | Start string
  | Stop string
  | Clear string
  | Subscribe string Listener
  | GetValue string
  | Unsubscribe ref Listener

datatype stmt = Do call int | Try call int | Throw

type_synonym program = "Listener \<Rightarrow> int \<Rightarrow> state \<Rightarrow> stmt list"

datatype val = Unit | Closure ref Listener | Num int

text \<open>
  \<open>listeners.forEach((fn) => fn(v))\<close> on the object \<open>r\<close>, as a function of the state:
  \<open>None\<close> when it does not return, otherwise whether an exception left it, and the state.
\<close>

type_synonym notifier = "ref \<Rightarrow> int \<Rightarrow> state \<Rightarrow> (bool \<times> state) option"

subsection \<open>Operations\<close>

text \<open>\<open>_computeValue(timer)\<close>, with \<open>now\<close> the value of \<open>Date.now()\<close>.\<close>

definition computeValue :: "Timer \<Rightarrow> int \<Rightarrow> int" where
  "computeValue timer now =
     (let sinceStart = (if intervalId timer \<noteq> None then now - startTs timer else 0);
          total = elapsedTime timer + sinceStart
      in if type timer = STOPWATCH then total
         else
           let remaining =
                 (case initialDuration timer of None \<Rightarrow> 0 | Some d \<Rightarrow> d) - total
           in if remaining > 0 then remaining else 0)"

text \<open>\<open>createStopWatch(id, currentElapsedMs = 0)\<close>: \<open>None\<close> is the omitted argument.\<close>

definition createStopWatch :: "state \<Rightarrow> string \<Rightarrow> int option \<Rightarrow> state" where
  "createStopWatch s ident currentElapsedMs =
     (if timers s ident = None then
        s\<lparr>heap := (heap s)(next_ref s :=
               \<lparr>startTs = 0,
                elapsedTime = (case currentElapsedMs of None \<Rightarrow> 0 | Some ms \<Rightarrow> ms),
                intervalId = None, listeners = [], type = STOPWATCH,
                initialDuration = None\<rparr>),
          timers := (timers s)(ident \<mapsto> next_ref s),
          next_ref := Suc (next_ref s)\<rparr>
      else s)"

definition createTimer :: "state \<Rightarrow> string \<Rightarrow> int \<Rightarrow> state" where
  "createTimer s ident durationMs =
     (if timers s ident = None then
        s\<lparr>heap := (heap s)(next_ref s :=
               \<lparr>startTs = 0, elapsedTime = 0, intervalId = None, listeners = [],
                type = TIMER, initialDuration = Some durationMs\<rparr>),
          timers := (timers s)(ident \<mapsto> next_ref s),
          next_ref := Suc (next_ref s)\<rparr>
      else s)"

text \<open>The three effects of \<open>start\<close> and of a notification on the state.\<close>

definition stamp :: "state \<Rightarrow> ref \<Rightarrow> int \<Rightarrow> state" where
  \<comment> \<open>\<open>timer.startTs = Date.now()\<close>\<close>
  "stamp s r now =
     s\<lparr>heap := (heap s)(r := (heap s r)\<lparr>startTs := now\<rparr>),
       trace := trace s @ [Started r now]\<rparr>"

definition arm :: "state \<Rightarrow> ref \<Rightarrow> string \<Rightarrow> state" where
  \<comment> \<open>\<open>timer.intervalId = setInterval(() => ..., 1000)\<close>, the closure holding \<open>timer\<close> and \<open>id\<close>\<close>
  "arm s r ident =
     s\<lparr>heap := (heap s)(r := (heap s r)\<lparr>intervalId := Some (next_handle s)\<rparr>),
       intervals := (intervals s)(next_handle s \<mapsto> (r, ident)),
       next_handle := Suc (next_handle s),
       trace := trace s @ [Scheduled (next_handle s)]\<rparr>"

definition called :: "state \<Rightarrow> Listener \<Rightarrow> int \<Rightarrow> state" where
  \<comment> \<open>the moment \<open>fn(v)\<close> is entered\<close>
  "called s fn v = s\<lparr>trace := trace s @ [Notify fn v]\<rparr>"

text \<open>
  \<open>start(id)\<close>, given what \<open>forEach\<close> does. The initial value is computed while
  \<open>intervalId\<close> is still \<open>null\<close>, the listeners are called with it, and only when they have
  all returned is the interval armed and its handle stored in the object found at the
  beginning. An exception from a listener leaves \<open>start\<close> before that.
\<close>

definition start_with ::
  "notifier \<Rightarrow> state \<Rightarrow> string \<Rightarrow> int \<Rightarrow> ((error + unit) \<times> state) option" where
  "start_with N s ident now =
     (case timers s ident of
        None \<Rightarrow> Some (Inl NotFound, s)
      | Some r \<Rightarrow>
          if intervalId (heap s r) \<noteq> None then Some (Inr (), s)
          else
            let s1 = stamp s r now;
                initialValue = computeValue (heap s1 r) now
            in (case N r initialValue s1 of
                  None \<Rightarrow> None
                | Some (True, s2) \<Rightarrow> Some (Inl Escaped, s2)
                | Some (False, s2) \<Rightarrow> Some (Inr (), arm s2 r ident)))"

text \<open>\<open>stop(id)\<close>: \<open>timer?.intervalId != null\<close> is false for an absent identifier.\<close>

definition stop :: "state \<Rightarrow> string \<Rightarrow> int \<Rightarrow> state" where
  "stop s ident now =
     (case timers s ident of
        None \<Rightarrow> s
      | Some r \<Rightarrow>
          let timer = heap s r in
          (case intervalId timer of
             None \<Rightarrow> s
           | Some h \<Rightarrow>
               let delta = now - startTs timer in
               s\<lparr>heap := (heap s)(r := timer\<lparr>elapsedTime := elapsedTime timer + delta,
                                              intervalId := None\<rparr>),
                 intervals := (intervals s)(h := None),
                 trace := trace s @ [Cancelled h]\<rparr>))"

text \<open>
  \<open>clear(id)\<close>: \<open>this.stop(id); timers.delete(id)\<close>. The event \<open>Removed\<close> is recorded
  when \<open>timers.delete\<close> finds the identifier.
\<close>

definition clear :: "state \<Rightarrow> string \<Rightarrow> int \<Rightarrow> state" where
  "clear s ident now =
     (let s1 = stop s ident now in
      s1\<lparr>timers := (timers s1)(ident := None),
         trace := trace s1 @ (if timers s1 ident \<noteq> None then [Removed ident] else [])\<rparr>)"

text \<open>
  \<open>subscribe(id, fn)\<close> returns the closure \<open>() => timer.listeners.delete(fn)\<close>, which
  is the pair of what it captured; \<open>unsubscribe\<close> is its invocation.
\<close>

definition subscribe ::
  "state \<Rightarrow> string \<Rightarrow> Listener \<Rightarrow> (error + ref \<times> Listener) \<times> state" where
  "subscribe s ident fn =
     (case timers s ident of
        None \<Rightarrow> (Inl NotFound, s)
      | Some r \<Rightarrow>
          let timer = heap s r in
          (Inr (r, fn),
           s\<lparr>heap := (heap s)(r := timer\<lparr>listeners := set_add fn (listeners timer)\<rparr>)\<rparr>))"

definition unsubscribe :: "state \<Rightarrow> ref \<times> Listener \<Rightarrow> state" where
  "unsubscribe s c =
     (case c of (r, fn) \<Rightarrow>
        s\<lparr>heap := (heap s)(r :=
             (heap s r)\<lparr>listeners := set_delete fn (listeners (heap s r))\<rparr>)\<rparr>)"

definition getValue :: "state \<Rightarrow> string \<Rightarrow> int \<Rightarrow> error + int" where
  "getValue s ident now =
     (case timers s ident of
        None \<Rightarrow> Inl NotFound
      | Some r \<Rightarrow> Inr (computeValue (heap s r) now))"

text \<open>One call into the module, given what \<open>forEach\<close> does.\<close>

fun exec_with ::
  "notifier \<Rightarrow> state \<Rightarrow> call \<Rightarrow> int \<Rightarrow> ((error + val) \<times> state) option" where
  "exec_with N s (CreateStopWatch ident ms) now = Some (Inr Unit, createStopWatch s ident ms)"
| "exec_with N s (CreateTimer ident d) now = Some (Inr Unit, createTimer s ident d)"
| "exec_with N s (Start ident) now =
     map_option (apfst (map_sum (\<lambda>e. e) (\<lambda>_. Unit))) (start_with N s ident now)"
| "exec_with N s (Stop ident) now = Some (Inr Unit, stop s ident now)"
| "exec_with N s (Clear ident) now = Some (Inr Unit, clear s ident now)"
| "exec_with N s (Subscribe ident fn) now =
     Some (map_sum (\<lambda>e. e) (\<lambda>(r, g). Closure r g) (fst (subscribe s ident fn)),
           snd (subscribe s ident fn))"
| "exec_with N s (GetValue ident) now = Some (map_sum (\<lambda>e. e) Num (getValue s ident now), s)"
| "exec_with N s (Unsubscribe r fn) now = Some (Inr Unit, unsubscribe s (r, fn))"

text \<open>
  The body of a listener: the statements in order, until one throws. The result says
  whether an exception left the body.
\<close>

fun body_with :: "notifier \<Rightarrow> stmt list \<Rightarrow> state \<Rightarrow> (bool \<times> state) option" where
  "body_with N [] s = Some (False, s)"
| "body_with N (Throw # rest) s = Some (True, s)"
| "body_with N (Do c now # rest) s =
     (case exec_with N s c now of
        None \<Rightarrow> None
      | Some (Inl e, s') \<Rightarrow> Some (True, s')
      | Some (Inr v, s') \<Rightarrow> body_with N rest s')"
| "body_with N (Try c now # rest) s =
     (case exec_with N s c now of
        None \<Rightarrow> None
      | Some (res, s') \<Rightarrow> body_with N rest s')"

text \<open>
  \<open>timer.listeners.forEach((fn) => fn(v))\<close> from slot \<open>i\<close> on: the slots are read from
  the object as it is when the walk gets there, an exception of a callback ends the walk.
  The body a callback runs is the one its program gives for the state in which it is
  entered. Callbacks may start and clear entries that call callbacks in turn, without
  bound, and a callback may add listeners to the set being walked, so the walk need not
  return: the first argument bounds the number of steps (slots visited, at every depth),
  and \<open>None\<close> says that they did not suffice.
\<close>

primrec forEach ::
  "nat \<Rightarrow> program \<Rightarrow> ref \<Rightarrow> nat \<Rightarrow> int \<Rightarrow> state \<Rightarrow> (bool \<times> state) option" where
  "forEach 0 P r i v s =
     (if length (listeners (heap s r)) \<le> i then Some (False, s) else None)"
| "forEach (Suc n) P r i v s =
     (if length (listeners (heap s r)) \<le> i then Some (False, s)
      else
        (case listeners (heap s r) ! i of
           None \<Rightarrow> forEach n P r (Suc i) v s
         | Some fn \<Rightarrow>
             (case body_with (\<lambda>q w t. forEach n P q 0 w t)
                     (P fn v (called s fn v)) (called s fn v) of
                None \<Rightarrow> None
              | Some (True, s') \<Rightarrow> Some (True, s')
              | Some (False, s') \<Rightarrow> forEach n P r (Suc i) v s')))"

definition notify :: "nat \<Rightarrow> program \<Rightarrow> notifier" where
  "notify n P r v s = forEach n P r 0 v s"

definition start ::
  "nat \<Rightarrow> program \<Rightarrow> state \<Rightarrow> string \<Rightarrow> int \<Rightarrow> ((error + unit) \<times> state) option" where
  "start n P = start_with (notify n P)"

definition exec ::
  "nat \<Rightarrow> program \<Rightarrow> state \<Rightarrow> call \<Rightarrow> int \<Rightarrow> ((error + val) \<times> state) option" where
  "exec n P = exec_with (notify n P)"

text \<open>
  One firing of the callback that \<open>start\<close> handed to \<open>setInterval\<close>, for the handle
  \<open>h\<close>. It reads the clock once in \<open>_computeValue\<close> (\<open>now\<close>) and, on the terminal branch,
  once more in the \<open>stop\<close> inside \<open>clear\<close> (\<open>now'\<close>). It works on the object it
  captured, but \<open>this.clear(id)\<close> looks the identifier up again, after the listeners ran.
  An exception from a listener leaves the callback. A cancelled handle does not fire.
\<close>

definition tick ::
  "nat \<Rightarrow> program \<Rightarrow> state \<Rightarrow> handle \<Rightarrow> int \<Rightarrow> int \<Rightarrow> ((error + unit) \<times> state) option" where
  "tick n P s h now now' =
     (case intervals s h of
        None \<Rightarrow> Some (Inr (), s)
      | Some (r, ident) \<Rightarrow>
          let v = computeValue (heap s r) now in
          if type (heap s r) = TIMER \<and> v \<le> 0 then
            (case notify n P r 0 s of
               None \<Rightarrow> None
             | Some (True, s') \<Rightarrow> Some (Inl Escaped, s')
             | Some (False, s') \<Rightarrow> Some (Inr (), clear s' ident now'))
          else
            (case notify n P r v s of
               None \<Rightarrow> None
             | Some (True, s') \<Rightarrow> Some (Inl Escaped, s')
             | Some (False, s') \<Rightarrow> Some (Inr (), s')))"

text \<open>
  The registry as a client sees it: the object an identifier stands for, if any. An entry
  is running when it holds an interval handle (\<open>timer.intervalId != null\<close>).
\<close>

definition entry :: "state \<Rightarrow> string \<Rightarrow> Timer option" where
  "entry s ident = map_option (heap s) (timers s ident)"

definition running :: "Timer \<Rightarrow> bool" where
  "running timer \<longleftrightarrow> intervalId timer \<noteq> None"

subsection \<open>Runs of the module\<close>

text \<open>
  What happens to the module from outside: a client calls it or the scheduler fires a live
  interval. Every action comes with the clock reading of its call; \<open>Tick\<close> carries the
  second reading of its terminal branch. An action that ends in an exception leaves its
  state behind and the run goes on; a run has a result when each of its actions returns.
\<close>

datatype action = Call call | Tick handle int

fun step ::
  "nat \<Rightarrow> program \<Rightarrow> state \<Rightarrow> action \<Rightarrow> int \<Rightarrow> ((error + val) \<times> state) option" where
  "step n P s (Call c) now = exec n P s c now"
| "step n P s (Tick h now') now =
     map_option (apfst (map_sum (\<lambda>e. e) (\<lambda>_. Unit))) (tick n P s h now now')"

fun run :: "nat \<Rightarrow> program \<Rightarrow> state \<Rightarrow> (action \<times> int) list \<Rightarrow> state option" where
  "run n P s [] = Some s"
| "run n P s ((a, now) # rest) =
     (case step n P s a now of
        None \<Rightarrow> None
      | Some (res, s') \<Rightarrow> run n P s' rest)"

text \<open>A listener that does nothing but receive its value.\<close>

definition silent :: program where
  "silent fn v s = []"



text \<open>
  Two listeners that do call back. The first, told 0, clears an identifier:
  \<open>(v) => { if (v === 0) TimerManager.clear(id) }\<close>. The second starts an identifier
  the first time any listener is called and never again:
  \<open>(v) => { if (first) { first = false; TimerManager.start(id) } }\<close>.
  In both programs every other listener is silent.
\<close>

definition clear_at_zero :: "Listener \<Rightarrow> string \<Rightarrow> int \<Rightarrow> program" where
  "clear_at_zero f ident now fn v s =
     (if fn = f \<and> v = 0 then [Do (Clear ident) now] else [])"


subsection \<open>Notions used in the statements\<close>


text \<open>
  Listeners that return at once when called with the value \<open>v\<close>: they make no call into
  the module and do not throw.
\<close>

definition quiet :: "program \<Rightarrow> Listener list \<Rightarrow> int \<Rightarrow> bool" where
  "quiet P fns v \<longleftrightarrow> (\<forall>fn \<in> set fns. \<forall>s. P fn v s = [])"

text \<open>
  What every run keeps, whatever the listeners do: a registered object is allocated and
  is registered under one identifier.
\<close>

definition registered :: "state \<Rightarrow> bool" where
  "registered s \<longleftrightarrow>
     (\<forall>i r. timers s i = Some r \<longrightarrow> r < next_ref s) \<and>
     (\<forall>i j r. timers s i = Some r \<longrightarrow> timers s j = Some r \<longrightarrow> i = j)"

text \<open>
  What a run keeps in which no listener calls back: in addition, a listener set without
  repetitions, a duration on every countdown, and a live interval exactly on the
  registered objects that store its handle.
\<close>

definition consistent :: "state \<Rightarrow> bool" where
  "consistent s \<longleftrightarrow>
     (\<forall>i r. timers s i = Some r \<longrightarrow>
        r < next_ref s \<and> distinct (live (listeners (heap s r))) \<and>
        (type (heap s r) = TIMER \<longrightarrow> initialDuration (heap s r) \<noteq> None)) \<and>
     (\<forall>i j r. timers s i = Some r \<longrightarrow> timers s j = Some r \<longrightarrow> i = j) \<and>
     (\<forall>h r i. intervals s h = Some (r, i) \<longrightarrow>
        h < next_handle s \<and> timers s i = Some r \<and> intervalId (heap s r) = Some h) \<and>
     (\<forall>i r h. timers s i = Some r \<longrightarrow> intervalId (heap s r) = Some h \<longrightarrow>
        intervals s h = Some (r, i))"



text \<open>
  A later state: allocation has only gone on, and what is registered was registered
  before or has been allocated since.
\<close>

definition later :: "state \<Rightarrow> state \<Rightarrow> bool" where
  "later s s' \<longleftrightarrow>
     next_ref s \<le> next_ref s' \<and>
     (\<forall>j q. timers s' j = Some q \<longrightarrow> timers s j = Some q \<or> next_ref s \<le> q)"

text \<open>
  A relation between the state before and the state after that holds across nothing,
  composes, and holds across each single effect of the module.
\<close>

definition preserved :: "(state \<Rightarrow> state \<Rightarrow> bool) \<Rightarrow> bool" where
  "preserved R \<longleftrightarrow>
     (\<forall>s. R s s) \<and>
     (\<forall>a b c. R a b \<longrightarrow> R b c \<longrightarrow> R a c) \<and>
     (\<forall>s i ms. R s (createStopWatch s i ms)) \<and>
     (\<forall>s i d. R s (createTimer s i d)) \<and>
     (\<forall>s i now. R s (stop s i now)) \<and>
     (\<forall>s i now. R s (clear s i now)) \<and>
     (\<forall>s i fn. R s (snd (subscribe s i fn))) \<and>
     (\<forall>s c. R s (unsubscribe s c)) \<and>
     (\<forall>s i r now. timers s i = Some r \<longrightarrow> R s (stamp s r now)) \<and>
     (\<forall>s r i. R s (arm s r i)) \<and>
     (\<forall>s fn v. R s (called s fn v))"

section \<open>Facts about every execution\<close>

lemma preservedI:
  assumes "\<And>s. R s s"
    and "\<And>a b c. R a b \<Longrightarrow> R b c \<Longrightarrow> R a c"
    and "\<And>s i ms. R s (createStopWatch s i ms)"
    and "\<And>s i d. R s (createTimer s i d)"
    and "\<And>s i now. R s (stop s i now)"
    and "\<And>s i now. R s (clear s i now)"
    and "\<And>s i fn. R s (snd (subscribe s i fn))"
    and "\<And>s c. R s (unsubscribe s c)"
    and "\<And>s i r now. timers s i = Some r \<Longrightarrow> R s (stamp s r now)"
    and "\<And>s r i. R s (arm s r i)"
    and "\<And>s fn v. R s (called s fn v)"
  shows "preserved R"
  unfolding preserved_def
  apply (intro conjI allI impI)
            apply (rule assms(1))
           apply (erule (1) assms(2))
          apply (rule assms(3))
         apply (rule assms(4))
        apply (rule assms(5))
       apply (rule assms(6))
      apply (rule assms(7))
     apply (rule assms(8))
    apply (erule assms(9))
   apply (rule assms(10))
  apply (rule assms(11))
  done

lemma preserved_refl: "preserved R \<Longrightarrow> R s s"
  by (simp add: preserved_def)

lemma preserved_trans: "preserved R \<Longrightarrow> R a b \<Longrightarrow> R b c \<Longrightarrow> R a c"
  unfolding preserved_def by (elim conjE) (erule allE, erule allE, erule allE, erule (1) impE, erule (1) impE) 

lemma preserved_createStopWatch: "preserved R \<Longrightarrow> R s (createStopWatch s i ms)"
  by (simp add: preserved_def)

lemma preserved_createTimer: "preserved R \<Longrightarrow> R s (createTimer s i d)"
  by (simp add: preserved_def)

lemma preserved_stop: "preserved R \<Longrightarrow> R s (stop s i now)"
  by (simp add: preserved_def)

lemma preserved_clear: "preserved R \<Longrightarrow> R s (clear s i now)"
  by (simp add: preserved_def)

lemma preserved_subscribe: "preserved R \<Longrightarrow> R s (snd (subscribe s i fn))"
  by (simp add: preserved_def)

lemma preserved_unsubscribe: "preserved R \<Longrightarrow> R s (unsubscribe s c)"
  by (cases c) (simp add: preserved_def)

lemma preserved_stamp: "preserved R \<Longrightarrow> timers s i = Some r \<Longrightarrow> R s (stamp s r now)"
  by (simp add: preserved_def)

lemma preserved_arm: "preserved R \<Longrightarrow> R s (arm s r i)"
  by (simp add: preserved_def)

lemma preserved_called: "preserved R \<Longrightarrow> R s (called s fn v)"
  by (simp add: preserved_def)

lemma start_with_rel:
  assumes p: "preserved R"
    and N: "\<And>r v s b s'. N r v s = Some (b, s') \<Longrightarrow> R s s'"
    and ex: "start_with N s i now = Some (res, s')"
  shows "R s s'"
proof (cases "timers s i")
  case None
  then show ?thesis using ex by (simp add: start_with_def preserved_refl [OF p])
next
  case (Some r)
  show ?thesis
  proof (cases "intervalId (heap s r) = None")
    case False
    then show ?thesis using ex Some by (auto simp add: start_with_def preserved_refl [OF p])
  next
    case True
    let ?s1 = "stamp s r now"
    have st: "R s ?s1" using p Some by (rule preserved_stamp)
    obtain b s2 where n: "N r (computeValue (heap ?s1 r) now) ?s1 = Some (b, s2)"
      using ex Some True by (auto simp add: start_with_def Let_def split: option.splits)
    have r2: "R s s2" using p st N [OF n] by (rule preserved_trans)
    show ?thesis
    proof (cases b)
      case True
      then have "s' = s2" using ex Some \<open>intervalId (heap s r) = None\<close> n
        by (simp add: start_with_def Let_def)
      then show ?thesis using r2 by simp
    next
      case False
      then have "s' = arm s2 r i" using ex Some \<open>intervalId (heap s r) = None\<close> n
        by (simp add: start_with_def Let_def)
      then show ?thesis using preserved_trans [OF p r2 preserved_arm [OF p]] by simp
    qed
  qed
qed

lemma exec_with_rel:
  assumes p: "preserved R"
    and N: "\<And>r v s b s'. N r v s = Some (b, s') \<Longrightarrow> R s s'"
    and ex: "exec_with N s c now = Some (res, s')"
  shows "R s s'"
proof (cases c)
  case (Start i)
  then obtain res0 where "start_with N s i now = Some (res0, s')"
    using ex by (auto simp: apfst_def map_prod_def split: prod.splits)
  then show ?thesis using p N by (rule start_with_rel [rotated 2])
qed (use ex p in \<open>auto simp: preserved_createStopWatch preserved_createTimer preserved_stop
      preserved_clear preserved_subscribe preserved_unsubscribe preserved_refl\<close>)

lemma body_with_rel:
  assumes p: "preserved R"
    and N: "\<And>r v s b s'. N r v s = Some (b, s') \<Longrightarrow> R s s'"
  shows "body_with N stmts s = Some (b, s') \<Longrightarrow> R s s'"
proof (induction stmts arbitrary: s)
  case Nil
  then show ?case by (simp add: preserved_refl [OF p])
next
  case (Cons x stmts)
  show ?case
  proof (cases x)
    case Throw
    then show ?thesis using Cons.prems by (simp add: preserved_refl [OF p])
  next
    case (Do c now)
    then obtain res s1 where e: "exec_with N s c now = Some (res, s1)"
      using Cons.prems by (auto split: option.splits)
    have r1: "R s s1" using p N e by (rule exec_with_rel)
    show ?thesis
    proof (cases res)
      case (Inl err)
      then have "s' = s1" using Cons.prems Do e by simp
      then show ?thesis using r1 by simp
    next
      case (Inr v)
      then have "body_with N stmts s1 = Some (b, s')" using Cons.prems Do e by simp
      then have "R s1 s'" by (rule Cons.IH)
      then show ?thesis using preserved_trans [OF p r1] by simp
    qed
  next
    case (Try c now)
    then obtain res s1 where e: "exec_with N s c now = Some (res, s1)"
      using Cons.prems by (auto split: option.splits)
    have r1: "R s s1" using p N e by (rule exec_with_rel)
    have "body_with N stmts s1 = Some (b, s')" using Cons.prems Try e by simp
    then have "R s1 s'" by (rule Cons.IH)
    then show ?thesis using preserved_trans [OF p r1] by simp
  qed
qed

lemma forEach_rel:
  assumes p: "preserved R"
  shows "forEach n P r i v s = Some (b, s') \<Longrightarrow> R s s'"
proof (induction n arbitrary: r i v s b s')
  case 0
  then show ?case by (simp add: preserved_refl [OF p] split: if_splits)
next
  case (Suc n)
  show ?case
  proof (cases "length (listeners (heap s r)) \<le> i")
    case True
    then show ?thesis using Suc.prems by (simp add: preserved_refl [OF p])
  next
    case False
    show ?thesis
    proof (cases "listeners (heap s r) ! i")
      case None
      then have "forEach n P r (Suc i) v s = Some (b, s')" using Suc.prems False by simp
      then show ?thesis by (rule Suc.IH)
    next
      case (Some fn)
      let ?s1 = "called s fn v"
      let ?N = "\<lambda>q w t. forEach n P q 0 w t"
      obtain b1 s1 where bd: "body_with ?N (P fn v ?s1) ?s1 = Some (b1, s1)"
        using Suc.prems False Some by (auto split: option.splits)
      have "R ?s1 s1"
        using p _ bd
      proof (rule body_with_rel)
        show "\<And>r v s b s'. forEach n P r 0 v s = Some (b, s') \<Longrightarrow> R s s'"
          by (rule Suc.IH)
      qed
      then have r1: "R s s1" using preserved_trans [OF p preserved_called [OF p]] by blast
      show ?thesis
      proof (cases b1)
        case True
        then have "s' = s1" using Suc.prems False Some bd by simp
        then show ?thesis using r1 by simp
      next
        case False
        then have "forEach n P r (Suc i) v s1 = Some (b, s')"
          using Suc.prems \<open>\<not> length (listeners (heap s r)) \<le> i\<close> Some bd by simp
        then have "R s1 s'" by (rule Suc.IH)
        then show ?thesis using preserved_trans [OF p r1] by simp
      qed
    qed
  qed
qed

lemma notify_rel: "preserved R \<Longrightarrow> notify n P r v s = Some (b, s') \<Longrightarrow> R s s'"
  unfolding notify_def by (rule forEach_rel)

lemma start_rel:
  assumes "preserved R" and "start n P s i now = Some (res, s')"
  shows "R s s'"
  using assms(1) notify_rel [OF assms(1)] assms(2) [unfolded start_def]
  by (rule start_with_rel)

lemma exec_rel:
  assumes "preserved R" and "exec n P s c now = Some (res, s')"
  shows "R s s'"
  using assms(1) notify_rel [OF assms(1)] assms(2) [unfolded exec_def]
  by (rule exec_with_rel)

lemma tick_rel:
  assumes p: "preserved R" and t: "tick n P s h now now' = Some (res, s')"
  shows "R s s'"
proof (cases "intervals s h")
  case None
  then show ?thesis using t by (simp add: tick_def preserved_refl [OF p])
next
  case (Some c)
  obtain r i where c: "c = (r, i)" by (cases c)
  let ?last = "type (heap s r) = TIMER \<and> computeValue (heap s r) now \<le> 0"
  let ?v = "if ?last then 0 else computeValue (heap s r) now"
  obtain b s1 where n: "notify n P r ?v s = Some (b, s1)"
    using t Some c by (auto simp add: tick_def Let_def split: option.splits if_splits)
  have r1: "R s s1" using p n by (rule notify_rel)
  have "s' = s1 \<or> s' = clear s1 i now'"
    using t Some c n by (auto simp add: tick_def Let_def split: if_splits bool.splits)
  then show ?thesis
    using r1 preserved_trans [OF p r1 preserved_clear [OF p]] by auto
qed

lemma step_rel: "preserved R \<Longrightarrow> step n P s a now = Some (res, s') \<Longrightarrow> R s s'"
  by (cases a) (auto simp: exec_rel tick_rel apfst_def map_prod_def split: prod.splits)

lemma run_rel:
  assumes p: "preserved R"
  shows "run n P s acts = Some s' \<Longrightarrow> R s s'"
proof (induction acts arbitrary: s)
  case Nil
  then show ?case by (simp add: preserved_refl [OF p])
next
  case (Cons x acts)
  obtain a now where x: "x = (a, now)" by (cases x)
  obtain res s1 where st: "step n P s a now = Some (res, s1)"
    and rest: "run n P s1 acts = Some s'"
    using Cons.prems x by (auto split: option.splits)
  have "R s s1" using p st by (rule step_rel)
  moreover have "R s1 s'" using rest by (rule Cons.IH)
  ultimately show ?case using preserved_trans [OF p] by blast
qed

section \<open>Registered objects\<close>

lemma registeredI:
  assumes "\<And>i r. timers s i = Some r \<Longrightarrow> r < next_ref s"
    and "\<And>i j r. timers s i = Some r \<Longrightarrow> timers s j = Some r \<Longrightarrow> i = j"
  shows "registered s"
  unfolding registered_def
  apply (intro conjI allI impI)
   apply (erule assms(1))
  apply (erule (1) assms(2))
  done

lemma allocated: "registered s \<Longrightarrow> timers s i = Some r \<Longrightarrow> r < next_ref s"
  unfolding registered_def by (elim conjE) (erule allE, erule allE, erule (1) impE)

lemma registered_once:
  "registered s \<Longrightarrow> timers s i = Some r \<Longrightarrow> timers s j = Some r \<Longrightarrow> i = j"
  unfolding registered_def
  by (elim conjE) (erule allE [of _ i], erule allE [of _ j], erule allE [of _ r], simp)

lemma timers_createStopWatch:
  "timers (createStopWatch s i ms) =
     (if timers s i = None then (timers s)(i \<mapsto> next_ref s) else timers s)"
  by (simp add: createStopWatch_def)

lemma timers_createTimer:
  "timers (createTimer s i d) =
     (if timers s i = None then (timers s)(i \<mapsto> next_ref s) else timers s)"
  by (simp add: createTimer_def)

lemma next_ref_createStopWatch:
  "next_ref (createStopWatch s i ms) =
     (if timers s i = None then Suc (next_ref s) else next_ref s)"
  by (simp add: createStopWatch_def)

lemma next_ref_createTimer:
  "next_ref (createTimer s i d) =
     (if timers s i = None then Suc (next_ref s) else next_ref s)"
  by (simp add: createTimer_def)

lemma timers_stop [simp]: "timers (stop s i now) = timers s"
  by (simp add: stop_def Let_def split: option.splits)

lemma next_ref_stop [simp]: "next_ref (stop s i now) = next_ref s"
  by (simp add: stop_def Let_def split: option.splits)

lemma timers_clear [simp]: "timers (clear s i now) = (timers s)(i := None)"
  by (simp add: clear_def Let_def)

lemma next_ref_clear [simp]: "next_ref (clear s i now) = next_ref s"
  by (simp add: clear_def Let_def)

lemma timers_subscribe [simp]: "timers (snd (subscribe s i fn)) = timers s"
  by (simp add: subscribe_def Let_def split: option.splits)

lemma next_ref_subscribe [simp]: "next_ref (snd (subscribe s i fn)) = next_ref s"
  by (simp add: subscribe_def Let_def split: option.splits)

lemma timers_unsubscribe [simp]: "timers (unsubscribe s c) = timers s"
  by (simp add: unsubscribe_def split: prod.splits)

lemma next_ref_unsubscribe [simp]: "next_ref (unsubscribe s c) = next_ref s"
  by (simp add: unsubscribe_def split: prod.splits)

lemma timers_stamp [simp]: "timers (stamp s r now) = timers s"
  by (simp add: stamp_def)

lemma next_ref_stamp [simp]: "next_ref (stamp s r now) = next_ref s"
  by (simp add: stamp_def)

lemma timers_arm [simp]: "timers (arm s r i) = timers s"
  by (simp add: arm_def)

lemma next_ref_arm [simp]: "next_ref (arm s r i) = next_ref s"
  by (simp add: arm_def)

lemma timers_called [simp]: "timers (called s fn v) = timers s"
  by (simp add: called_def)

lemma next_ref_called [simp]: "next_ref (called s fn v) = next_ref s"
  by (simp add: called_def)

lemma registered_same:
  "timers s' = timers s \<Longrightarrow> next_ref s' = next_ref s \<Longrightarrow> registered s \<Longrightarrow> registered s'"
  by (simp add: registered_def)

lemma registered_fresh:
  assumes c: "registered s" and n: "timers s i = None"
    and t: "timers s' = (timers s)(i \<mapsto> next_ref s)" and x: "next_ref s' = Suc (next_ref s)"
  shows "registered s'"
proof (rule registeredI)
  fix j r assume "timers s' j = Some r"
  then show "r < next_ref s'"
    using allocated [OF c, of j r] t x by (auto split: if_splits)
next
  fix j k r assume "timers s' j = Some r" and "timers s' k = Some r"
  then show "j = k"
    using t registered_once [OF c, of j r k] allocated [OF c, of j r] allocated [OF c, of k r]
    by (auto split: if_splits)
qed

lemma registered_createStopWatch: "registered s \<Longrightarrow> registered (createStopWatch s i ms)"
  by (cases "timers s i = None")
     (auto simp: createStopWatch_def intro: registered_fresh [of s i])

lemma registered_createTimer: "registered s \<Longrightarrow> registered (createTimer s i d)"
  by (cases "timers s i = None")
     (auto simp: createTimer_def intro: registered_fresh [of s i])

lemma registered_clear:
  assumes c: "registered s"
  shows "registered (clear s i now)"
proof (rule registeredI)
  fix j r assume "timers (clear s i now) j = Some r"
  then show "r < next_ref (clear s i now)"
    using allocated [OF c, of j r] by (auto split: if_splits)
next
  fix j k r assume "timers (clear s i now) j = Some r" and "timers (clear s i now) k = Some r"
  then show "j = k"
    using registered_once [OF c, of j r k] by (auto split: if_splits)
qed

lemma preserved_registered: "preserved (\<lambda>s s'. registered s \<longrightarrow> registered s')"
  by (rule preservedI)
     (auto intro: registered_createStopWatch registered_createTimer registered_clear
        registered_same [of "stop _ _ _"] registered_same [of "snd (subscribe _ _ _)"]
        registered_same [of "unsubscribe _ _"] registered_same [of "stamp _ _ _"]
        registered_same [of "arm _ _ _"] registered_same [of "called _ _ _"])

lemma registered_init: "registered init"
  by (simp add: registered_def init_def)

lemma registered_run: "registered s \<Longrightarrow> run n P s acts = Some s' \<Longrightarrow> registered s'"
  using run_rel [OF preserved_registered] by blast

lemma registered_reachable: "run n P init acts = Some s \<Longrightarrow> registered s"
  using registered_init by (rule registered_run)

lemma laterI:
  assumes "next_ref s \<le> next_ref s'"
    and "\<And>j q. timers s' j = Some q \<Longrightarrow> timers s j = Some q \<or> next_ref s \<le> q"
  shows "later s s'"
  unfolding later_def using assms by blast

lemma later_next_ref: "later s s' \<Longrightarrow> next_ref s \<le> next_ref s'"
  by (simp add: later_def)

lemma later_timers:
  "later s s' \<Longrightarrow> timers s' j = Some q \<Longrightarrow> timers s j = Some q \<or> next_ref s \<le> q"
  by (simp add: later_def)

lemma later_same: "timers s' = timers s \<Longrightarrow> next_ref s' = next_ref s \<Longrightarrow> later s s'"
  by (simp add: later_def)

lemma later_trans:
  assumes ab: "later a b" and bc: "later b c"
  shows "later a c"
proof (rule laterI)
  show "next_ref a \<le> next_ref c"
    using later_next_ref [OF ab] later_next_ref [OF bc] by simp
next
  fix j q assume "timers c j = Some q"
  then have "timers b j = Some q \<or> next_ref b \<le> q" using bc by (simp add: later_timers)
  then show "timers a j = Some q \<or> next_ref a \<le> q"
    using later_timers [OF ab, of j q] later_next_ref [OF ab] by auto
qed

lemma later_createStopWatch: "later s (createStopWatch s i ms)"
  by (rule laterI)
     (auto simp: timers_createStopWatch next_ref_createStopWatch split: if_splits)

lemma later_createTimer: "later s (createTimer s i d)"
  by (rule laterI) (auto simp: timers_createTimer next_ref_createTimer split: if_splits)

lemma later_clear: "later s (clear s i now)"
  by (rule laterI) (auto split: if_splits)

lemma preserved_later: "preserved later"
  by (rule preservedI)
     (auto intro: later_trans later_createStopWatch later_createTimer later_clear later_same)

lemma stale_run:
  assumes "r < next_ref s" and "\<And>j. timers s j \<noteq> Some r"
    and "run n P s acts = Some s'"
  shows "timers s' j \<noteq> Some r"
proof
  assume "timers s' j = Some r"
  moreover have "later s s'" using preserved_later assms(3) by (rule run_rel)
  ultimately have "timers s j = Some r \<or> next_ref s \<le> r" by (simp add: later_timers)
  then show False using assms(1,2) by auto
qed

section \<open>The history of \<open>startTs\<close>\<close>












lemma startTs_stop [simp]: "startTs (heap (stop s i now) q) = startTs (heap s q)"
  by (simp add: stop_def Let_def split: option.splits)

lemma startTs_clear [simp]: "startTs (heap (clear s i now) q) = startTs (heap s q)"
  by (simp add: clear_def Let_def)

lemma startTs_subscribe [simp]:
  "startTs (heap (snd (subscribe s i fn)) q) = startTs (heap s q)"
  by (simp add: subscribe_def Let_def split: option.splits)

lemma startTs_unsubscribe [simp]:
  "startTs (heap (unsubscribe s c) q) = startTs (heap s q)"
  by (simp add: unsubscribe_def split: prod.splits)













section \<open>Listeners that return at once\<close>

lemma quiet_Cons: "quiet P (fn # fns) v \<longleftrightarrow> (\<forall>s. P fn v s = []) \<and> quiet P fns v"
  by (auto simp: quiet_def)

lemma quiet_silent [simp]: "quiet silent fns v"
  by (simp add: quiet_def silent_def)

lemma forEach_quiet:
  assumes "quiet P (live (drop i (listeners (heap s r)))) v"
  shows "forEach n P r i v s =
           (if length (listeners (heap s r)) \<le> i + n
            then Some (False, s\<lparr>trace := trace s @
                   map (\<lambda>fn. Notify fn v) (live (drop i (listeners (heap s r))))\<rparr>)
            else None)"
  using assms
proof (induction n arbitrary: i s)
  case 0
  then show ?case by simp
next
  case (Suc n)
  let ?es = "listeners (heap s r)"
  show ?case
  proof (cases "length ?es \<le> i")
    case True
    then show ?thesis by simp
  next
    case False
    then have d: "drop i ?es = ?es ! i # drop (Suc i) ?es"
      by (simp add: Cons_nth_drop_Suc)
    show ?thesis
    proof (cases "?es ! i")
      case None
      then have "quiet P (live (drop (Suc i) ?es)) v" using Suc.prems d by simp
      then show ?thesis using Suc.IH [of "Suc i" s] False None d by simp
    next
      case (Some fn)
      let ?s1 = "called s fn v"
      have h: "heap ?s1 = heap s" by (simp add: called_def)
      have q: "P fn v ?s1 = []" and q': "quiet P (live (drop (Suc i) ?es)) v"
        using Suc.prems d Some by (simp_all add: quiet_Cons)
      have "forEach n P r (Suc i) v ?s1 =
           (if length ?es \<le> Suc i + n
            then Some (False, ?s1\<lparr>trace := trace ?s1 @
                   map (\<lambda>fn. Notify fn v) (live (drop (Suc i) ?es))\<rparr>)
            else None)"
        using Suc.IH [of "Suc i" ?s1] q' h by simp
      then show ?thesis using False Some d q by (simp add: called_def)
    qed
  qed
qed

lemma notify_quiet:
  assumes "quiet P (live (listeners (heap s r))) v"
  shows "notify n P r v s =
           (if length (listeners (heap s r)) \<le> n
            then Some (False, s\<lparr>trace := trace s @
                   map (\<lambda>fn. Notify fn v) (live (listeners (heap s r)))\<rparr>)
            else None)"
  using forEach_quiet [of P 0 s r v n] assms by (simp add: notify_def)

text \<open>What \<open>start\<close> and \<open>tick\<close> come to when the listeners concerned are quiet.\<close>

lemma start_quiet:
  assumes reg: "timers s i = Some r" and idle: "intervalId (heap s r) = None"
    and q: "quiet P (live (listeners (heap s r))) (computeValue (heap s r) now)"
    and fuel: "length (listeners (heap s r)) \<le> n"
  shows "start n P s i now =
           Some (Inr (), arm ((stamp s r now)\<lparr>trace := trace s @ [Started r now] @
                   map (\<lambda>fn. Notify fn (computeValue (heap s r) now))
                     (live (listeners (heap s r)))\<rparr>) r i)"
proof -
  let ?s1 = "stamp s r now"
  have l: "listeners (heap ?s1 r) = listeners (heap s r)" by (simp add: stamp_def)
  have v: "computeValue (heap ?s1 r) now = computeValue (heap s r) now"
    using idle by (simp add: stamp_def computeValue_def Let_def cong: option.case_cong)
  have t: "trace ?s1 = trace s @ [Started r now]" by (simp add: stamp_def)
  have "notify n P r (computeValue (heap s r) now) ?s1 =
          Some (False, ?s1\<lparr>trace := trace ?s1 @
                   map (\<lambda>fn. Notify fn (computeValue (heap s r) now))
                     (live (listeners (heap s r)))\<rparr>)"
    using notify_quiet [of P ?s1 r "computeValue (heap s r) now" n] q fuel l by simp
  then show ?thesis
    using reg idle v t by (simp add: start_def start_with_def Let_def)
qed


section \<open>Runs in which no listener calls back\<close>
















lemma consistent_trace [simp]: "consistent (s\<lparr>trace := t\<rparr>) = consistent s"
  by (simp add: consistent_def)




lemma live_append [simp]: "live (xs @ ys) = live xs @ live ys"
  by (induction xs rule: live.induct) simp_all

lemma set_live: "set (live es) = {fn. Some fn \<in> set es}"
  by (induction es rule: live.induct) auto

lemma live_set_add:
  "live (set_add fn es) = (if fn \<in> set (live es) then live es else live es @ [fn])"
  by (simp add: set_add_def set_live)

lemma live_set_delete: "live (set_delete fn es) = filter (\<lambda>g. g \<noteq> fn) (live es)"
  by (induction es rule: live.induct) (auto simp: set_delete_def)








lemma start_silent:
  "start n silent s i now =
     (case timers s i of
        None \<Rightarrow> Some (Inl NotFound, s)
      | Some r \<Rightarrow>
          if intervalId (heap s r) \<noteq> None then Some (Inr (), s)
          else if length (listeners (heap s r)) \<le> n
          then Some (Inr (), arm ((stamp s r now)\<lparr>trace := trace s @ [Started r now] @
                   map (\<lambda>fn. Notify fn (computeValue (heap s r) now))
                     (live (listeners (heap s r)))\<rparr>) r i)
          else None)"
proof (cases "timers s i")
  case None
  then show ?thesis by (simp add: start_def start_with_def)
next
  case (Some r)
  show ?thesis
  proof (cases "intervalId (heap s r)")
    case (Some h)
    then show ?thesis using \<open>timers s i = Some r\<close> by (simp add: start_def start_with_def)
  next
    case None
    show ?thesis
    proof (cases "length (listeners (heap s r)) \<le> n")
      case True
      then show ?thesis
        using start_quiet [OF \<open>timers s i = Some r\<close> None quiet_silent True, of now]
          \<open>timers s i = Some r\<close> None by simp
    next
      case False
      have "listeners (heap (stamp s r now) r) = listeners (heap s r)" by (simp add: stamp_def)
      then have "notify n silent r v (stamp s r now) = None" for v
        using notify_quiet [of silent "stamp s r now" r v n] False by simp
      then show ?thesis
        using \<open>timers s i = Some r\<close> None False
        by (simp add: start_def start_with_def Let_def)
    qed
  qed
qed






section \<open>Auxiliary facts\<close>

lemma notifications_append [simp]:
  "notifications (xs @ ys) = notifications xs @ notifications ys"
  by (induction xs rule: notifications.induct) simp_all

lemma notifications_Notify [simp]:
  "notifications (map (\<lambda>fn. Notify fn v) fns) = map (\<lambda>fn. (fn, v)) fns"
  by (induction fns) simp_all

lemma exec_simps [simp]:
  "exec n P s (CreateStopWatch i ms) now = Some (Inr Unit, createStopWatch s i ms)"
  "exec n P s (CreateTimer i d) now = Some (Inr Unit, createTimer s i d)"
  "exec n P s (Start i) now =
     map_option (apfst (map_sum (\<lambda>e. e) (\<lambda>_. Unit))) (start n P s i now)"
  "exec n P s (Stop i) now = Some (Inr Unit, stop s i now)"
  "exec n P s (Clear i) now = Some (Inr Unit, clear s i now)"
  "exec n P s (Subscribe i fn) now =
     Some (map_sum (\<lambda>e. e) (\<lambda>(r, g). Closure r g) (fst (subscribe s i fn)),
           snd (subscribe s i fn))"
  "exec n P s (GetValue i) now = Some (map_sum (\<lambda>e. e) Num (getValue s i now), s)"
  "exec n P s (Unsubscribe r fn) now = Some (Inr Unit, unsubscribe s (r, fn))"
  by (simp_all add: exec_def start_def)




lemma entry_unsubscribe_stale:
  assumes "\<And>j. timers x j \<noteq> Some r"
  shows "entry (unsubscribe x (r, fn)) = entry x"
proof
  fix j
  show "entry (unsubscribe x (r, fn)) j = entry x j"
    using assms [of j] by (cases "timers x j") (auto simp: entry_def unsubscribe_def)
qed





lemmas eval_defs = init_def createStopWatch_def createTimer_def subscribe_def set_add_def
  start_silent stamp_def arm_def computeValue_def Let_def


section \<open>Properties of the operations\<close>

subsection \<open>The computed value\<close>

text \<open>
  C1. The value of an entry at a clock reading depends on the entry alone: with
  \<open>sinceStart\<close> the time since \<open>startTs\<close> when the entry is running and 0 otherwise, and
  \<open>total\<close> the sum of \<open>elapsedTime\<close> and \<open>sinceStart\<close>, a stopwatch has the value
  \<open>total\<close> and a countdown of duration \<open>d\<close> the value \<open>max 0 (d - total)\<close>; \<open>getValue\<close>
  on a present identifier returns this value of the entry it stands for.
\<close>

theorem computed_value:
  "(let sinceStart = (if running t then now - startTs t else 0);
        total = elapsedTime t + sinceStart
    in (type t = STOPWATCH \<longrightarrow> computeValue t now = total) \<and>
       (type t = TIMER \<longrightarrow> initialDuration t = Some d \<longrightarrow>
          computeValue t now = max 0 (d - total))) \<and>
   (entry s ident = Some t \<longrightarrow> getValue s ident now = Inr (computeValue t now))"
  by (auto simp: computeValue_def running_def getValue_def entry_def Let_def)

theorem computed_value_witness:
  "computeValue \<lparr>startTs = 1000, elapsedTime = 500, intervalId = Some 0, listeners = [],
      type = TIMER, initialDuration = Some 3000\<rparr> 2000 = 1500 \<and>
   computeValue \<lparr>startTs = 1000, elapsedTime = 500, intervalId = None, listeners = [],
      type = STOPWATCH, initialDuration = None\<rparr> 2000 = 500 \<and>
   getValue (createTimer init ''b'' 3000) ''b'' 4500 = Inr 3000"
proof -
  let ?c = "\<lparr>startTs = 1000, elapsedTime = 500, intervalId = Some 0, listeners = [],
      type = TIMER, initialDuration = Some 3000\<rparr>"
  let ?w = "\<lparr>startTs = 1000, elapsedTime = 500, intervalId = None, listeners = [],
      type = STOPWATCH, initialDuration = None\<rparr>"
  let ?s = "createTimer init ''b'' 3000"
  let ?b = "\<lparr>startTs = 0, elapsedTime = 0, intervalId = None, listeners = [],
      type = TIMER, initialDuration = Some 3000\<rparr>"
  have e: "entry ?s ''b'' = Some ?b"
    by (simp add: entry_def init_def createTimer_def)
  show ?thesis
    using computed_value [of ?c 2000 3000 ?s "''b''"]
      computed_value [of ?w 2000 0 ?s "''b''"]
      computed_value [of ?b 4500 3000 ?s "''b''"] e
    by (simp add: running_def Let_def)
qed

text \<open>
  C6. While an entry runs and nothing else happens to it, a later clock reading gives a
  countdown a value that is not larger and never negative, and a stopwatch a value that
  is not smaller.
\<close>

theorem value_monotone:
  assumes "running t" and "t1 \<le> t2"
  shows "(type t = TIMER \<longrightarrow>
            0 \<le> computeValue t t2 \<and> computeValue t t2 \<le> computeValue t t1) \<and>
         (type t = STOPWATCH \<longrightarrow> computeValue t t1 \<le> computeValue t t2)"
  using assms by (auto simp: computeValue_def running_def Let_def)

theorem value_monotone_witness:
  "computeValue \<lparr>startTs = 1000, elapsedTime = 500, intervalId = Some 0, listeners = [],
      type = TIMER, initialDuration = Some 3000\<rparr> 4000
     \<le> computeValue \<lparr>startTs = 1000, elapsedTime = 500, intervalId = Some 0,
          listeners = [], type = TIMER, initialDuration = Some 3000\<rparr> 2000 \<and>
   computeValue \<lparr>startTs = 1000, elapsedTime = 500, intervalId = Some 0, listeners = [],
      type = STOPWATCH, initialDuration = None\<rparr> 2000
     \<le> computeValue \<lparr>startTs = 1000, elapsedTime = 500, intervalId = Some 0,
          listeners = [], type = STOPWATCH, initialDuration = None\<rparr> 4000"
  using value_monotone [of "\<lparr>startTs = 1000, elapsedTime = 500, intervalId = Some 0,
          listeners = [], type = TIMER, initialDuration = Some 3000\<rparr>" 2000 4000]
    value_monotone [of "\<lparr>startTs = 1000, elapsedTime = 500, intervalId = Some 0,
          listeners = [], type = STOPWATCH, initialDuration = None\<rparr>" 2000 4000]
  by (simp add: running_def)

subsection \<open>Absent identifiers\<close>

text \<open>
  C3. For an identifier that is not in the registry, \<open>start\<close>, \<open>subscribe\<close> and
  \<open>getValue\<close> fail with \<open>NotFound\<close>, while \<open>stop\<close> and \<open>clear\<close> return normally; in all
  five cases the state is the one before the call, whatever the listeners would do.
\<close>

theorem absent_id:
  assumes "timers s ident = None"
  shows "start n P s ident now = Some (Inl NotFound, s) \<and>
         subscribe s ident fn = (Inl NotFound, s) \<and>
         getValue s ident now = Inl NotFound \<and>
         stop s ident now = s \<and>
         clear s ident now = s"
  using assms
  by (simp add: start_def start_with_def subscribe_def getValue_def stop_def clear_def
      fun_upd_idem)

theorem absent_id_witness:
  "start 3 (clear_at_zero 7 ''b'' 0) (createTimer init ''b'' 5) ''a'' 0 =
     Some (Inl NotFound, createTimer init ''b'' 5) \<and>
   subscribe (createTimer init ''b'' 5) ''a'' 7 = (Inl NotFound, createTimer init ''b'' 5) \<and>
   getValue (createTimer init ''b'' 5) ''a'' 0 = Inl NotFound \<and>
   stop (createTimer init ''b'' 5) ''a'' 0 = createTimer init ''b'' 5 \<and>
   clear (createTimer init ''b'' 5) ''a'' 0 = createTimer init ''b'' 5"
  using absent_id [of "createTimer init ''b'' 5" "''a''" 3 "clear_at_zero 7 ''b'' 0" 0 7]
  by (simp add: createTimer_def init_def)



subsection \<open>Stopping\<close>



subsection \<open>The unsubscribe closure\<close>

text \<open>
  C7. The closure returned by \<open>subscribe\<close> holds the object registered at that moment
  and the callback. Invoked in any state, it removes that callback from that object's
  listeners and touches nothing else. Invoked after the entry was cleared, whatever
  happened in between and whatever the listeners did, it changes no registered entry:
  nothing comes back under the identifier, and an entry created later under the same
  identifier is a different object and keeps its listeners.
\<close>

theorem unsubscribe_handle:
  assumes "run n P init acts = Some s" and "timers s ident = Some r"
  shows "fst (subscribe s ident fn) = Inr (r, fn) \<and>
         fn \<in> set (live (listeners (heap (snd (subscribe s ident fn)) r))) \<and>
         (let x' = unsubscribe x (r, fn) in
            live (listeners (heap x' r)) = filter (\<lambda>g. g \<noteq> fn) (live (listeners (heap x r))) \<and>
            (heap x' r)\<lparr>listeners := []\<rparr> = (heap x r)\<lparr>listeners := []\<rparr> \<and>
            (\<forall>q. q \<noteq> r \<longrightarrow> heap x' q = heap x q) \<and>
            timers x' = timers x \<and> intervals x' = intervals x \<and> trace x' = trace x) \<and>
         (run n' P' (clear (snd (subscribe s ident fn)) ident now) acts' = Some s3 \<longrightarrow>
            (let s4 = unsubscribe s3 (r, fn)
             in entry s4 = entry s3 \<and> timers s4 = timers s3 \<and>
                intervals s4 = intervals s3 \<and> trace s4 = trace s3))"
proof -
  have c: "registered s" using assms(1) by (rule registered_reachable)
  let ?s1 = "snd (subscribe s ident fn)"
  let ?s2 = "clear ?s1 ident now"
  have a: "fst (subscribe s ident fn) = Inr (r, fn)"
    using assms(2) by (simp add: subscribe_def Let_def)
  have b: "fn \<in> set (live (listeners (heap ?s1 r)))"
    using assms(2) by (simp add: subscribe_def Let_def live_set_add)
  have u: "let x' = unsubscribe x (r, fn) in
            live (listeners (heap x' r)) = filter (\<lambda>g. g \<noteq> fn) (live (listeners (heap x r))) \<and>
            (heap x' r)\<lparr>listeners := []\<rparr> = (heap x r)\<lparr>listeners := []\<rparr> \<and>
            (\<forall>q. q \<noteq> r \<longrightarrow> heap x' q = heap x q) \<and>
            timers x' = timers x \<and> intervals x' = intervals x \<and> trace x' = trace x"
    by (simp add: unsubscribe_def live_set_delete Let_def)
  have "r < next_ref s" using c assms(2) by (rule allocated)
  then have alloc: "r < next_ref ?s2" by simp
  have gone: "timers ?s2 j \<noteq> Some r" for j
    using registered_once [OF c assms(2), of j] by (auto split: if_splits)
  have d: "let s4 = unsubscribe s3 (r, fn)
          in entry s4 = entry s3 \<and> timers s4 = timers s3 \<and>
             intervals s4 = intervals s3 \<and> trace s4 = trace s3"
    if r3: "run n' P' ?s2 acts' = Some s3"
  proof -
    have stale: "timers s3 j \<noteq> Some r" for j
      using alloc gone r3 by (rule stale_run)
    have "entry (unsubscribe s3 (r, fn)) = entry s3"
      using stale by (rule entry_unsubscribe_stale)
    then show ?thesis by (simp add: Let_def unsubscribe_def)
  qed
  show ?thesis using a b u d by blast
qed

theorem unsubscribe_handle_witness:
  "fst (subscribe (createTimer init ''a'' 5000) ''a'' 7) = Inr (0, 7) \<and>
   entry (unsubscribe (snd (subscribe (createTimer (clear (snd (subscribe
            (createTimer init ''a'' 5000) ''a'' 7)) ''a'' 10) ''a'' 9) ''a'' 7)) (0, 7)) ''a'' =
     Some \<lparr>startTs = 0, elapsedTime = 0, intervalId = None, listeners = [Some 7],
           type = TIMER, initialDuration = Some 9\<rparr>"
proof -
  let ?S = "createTimer init ''a'' 5000"
  let ?P = "clear_at_zero 7 ''a'' 0"
  let ?acts' = "[(Call (CreateTimer ''a'' 9), 20), (Call (Subscribe ''a'' 7), 21)]"
  let ?S2 = "clear (snd (subscribe ?S ''a'' 7)) ''a'' 10"
  let ?S3 = "snd (subscribe (createTimer ?S2 ''a'' 9) ''a'' 7)"
  have S: "run 3 ?P init [(Call (CreateTimer ''a'' 5000), 0)] = Some ?S" by simp
  have reg: "timers ?S ''a'' = Some 0" by (simp add: eval_defs)
  have S3: "run 3 ?P ?S2 ?acts' = Some ?S3" by simp
  have later: "entry ?S3 ''a'' =
     Some \<lparr>startTs = 0, elapsedTime = 0, intervalId = None, listeners = [Some 7],
           type = TIMER, initialDuration = Some 9\<rparr>"
    by (simp add: eval_defs entry_def clear_def stop_def)
  have "fst (subscribe ?S ''a'' 7) = Inr (0, 7)"
    using unsubscribe_handle [OF S reg, of 7 init 3 ?P 10 ?acts' ?S3] by blast
  moreover have "entry (unsubscribe ?S3 (0, 7)) = entry ?S3"
    using unsubscribe_handle [OF S reg, of 7 init 3 ?P 10 ?acts' ?S3] S3
    by (simp add: Let_def)
  ultimately show ?thesis using later by simp
qed

subsection \<open>The start timestamp of an entry that is not running\<close>




subsection \<open>The terminal tick\<close>




subsection \<open>Starting\<close>







end
